theory Spec2Isabelle
  imports Complex_Main "HOL-Library.Log_Nat"
begin

section \<open>Python strings\<close>

text \<open>
  Text is a list of characters; a character stands for a code point below 256, so the
  classification of white space and the case mapping below are those of Python's
  \<^verbatim>\<open>str\<close> on that range.
\<close>

definition isspace :: "char \<Rightarrow> bool" where
  \<comment> \<open>\<^verbatim>\<open>str.isspace\<close>: TAB..CR, FS..US, SPACE, NEL and NBSP.\<close>
  "isspace c =
     (let n = (of_char c :: nat)
      in (9 \<le> n \<and> n \<le> 13) \<or> (28 \<le> n \<and> n \<le> 32) \<or> n = 133 \<or> n = 160)"

definition strip :: "string \<Rightarrow> string" where
  \<comment> \<open>\<^verbatim>\<open>s.strip()\<close>: leading and trailing white space removed.\<close>
  "strip s = rev (dropWhile isspace (rev (dropWhile isspace s)))"

definition lower_char :: "char \<Rightarrow> char" where
  \<comment> \<open>A..Z and the upper-case letters of Latin-1 (all of 192..222 but the sign at 215).\<close>
  "lower_char c =
     (let n = (of_char c :: nat)
      in if (65 \<le> n \<and> n \<le> 90) \<or> (192 \<le> n \<and> n \<le> 222 \<and> n \<noteq> 215)
         then char_of (n + 32) else c)"

definition lower :: "string \<Rightarrow> string" where
  "lower s = map lower_char s"

definition replace :: "string \<Rightarrow> char \<Rightarrow> string \<Rightarrow> string" where
  \<comment> \<open>\<^verbatim>\<open>s.replace(old, new)\<close> for a one-character \<^verbatim>\<open>old\<close>.\<close>
  "replace s old new = concat (map (\<lambda>x. if x = old then new else [x]) s)"

fun split_from :: "char \<Rightarrow> string \<Rightarrow> string \<Rightarrow> string list" where
  "split_from sep cur [] = [cur]"
| "split_from sep cur (x # xs) =
     (if x = sep then cur # split_from sep [] xs else split_from sep (cur @ [x]) xs)"

definition split :: "string \<Rightarrow> char \<Rightarrow> string list" where
  \<comment> \<open>\<^verbatim>\<open>s.split(sep)\<close> for a one-character separator: every occurrence cuts, so
      adjacent separators give empty pieces and the empty string gives one empty piece.\<close>
  "split s sep = split_from sep [] s"

section \<open>Python dictionaries\<close>

text \<open>
  A \<^verbatim>\<open>dict\<close> keeps its keys in the order of their first insertion; storing under a
  key that is present replaces the value where the key stands.
\<close>

type_synonym ('k, 'v) dict = "('k \<times> 'v) list"

definition dict_get :: "('k, 'v) dict \<Rightarrow> 'k \<Rightarrow> 'v option" where
  "dict_get d k = map_of d k"

fun dict_setitem :: "('k, 'v) dict \<Rightarrow> 'k \<Rightarrow> 'v \<Rightarrow> ('k, 'v) dict" where
  "dict_setitem [] k v = [(k, v)]"
| "dict_setitem ((k', v') # d) k v =
     (if k' = k then (k', v) # d else (k', v') # dict_setitem d k v)"

definition dict_items :: "('k, 'v) dict \<Rightarrow> ('k \<times> 'v) list" where
  "dict_items d = d"

definition dict_len :: "('k, 'v) dict \<Rightarrow> nat" where
  "dict_len d = length d"

section \<open>word_tally\<close>

text \<open>
  \<^verbatim>\<open>
  word_dict = {}
  for word in word_list:
      if not word_dict.get(word):
          word_dict[word] = 1
      else:
          word_dict[word] += 1
  return word_dict
  \<close>
  \<^verbatim>\<open>not word_dict.get(word)\<close> holds when the key is absent (\<^verbatim>\<open>None\<close>) and when the
  stored count is zero. In the other branch the key is present, so the read of
  \<^verbatim>\<open>word_dict[word] += 1\<close> finds the count the test has just seen.
\<close>

fun word_tally_loop :: "'k list \<Rightarrow> ('k, int) dict \<Rightarrow> ('k, int) dict" where
  "word_tally_loop [] word_dict = word_dict"
| "word_tally_loop (word # rest) word_dict =
     (case dict_get word_dict word of
        None \<Rightarrow> word_tally_loop rest (dict_setitem word_dict word 1)
      | Some n \<Rightarrow>
          if n = 0 then word_tally_loop rest (dict_setitem word_dict word 1)
          else word_tally_loop rest (dict_setitem word_dict word (n + 1)))"

definition word_tally :: "'k list \<Rightarrow> ('k, int) dict" where
  "word_tally word_list = word_tally_loop word_list []"

text \<open>
  The invariant of the loop, for any dictionary it may hold on the way: no key twice,
  every stored count positive.
\<close>

definition tally_inv :: "('k, int) dict \<Rightarrow> bool" where
  "tally_inv d \<longleftrightarrow> distinct (map fst d) \<and> (\<forall>p \<in> set d. 1 \<le> snd p)"

text \<open>
  The order in which a list shows its distinct values for the first time, and the
  position of the first occurrence of a value (the length of the list when absent).
\<close>

fun first_seen :: "'a list \<Rightarrow> 'a list" where
  "first_seen [] = []"
| "first_seen (x # xs) = x # removeAll x (first_seen xs)"

definition first_pos :: "'a list \<Rightarrow> 'a \<Rightarrow> nat" where
  "first_pos xs x = length (takeWhile (\<lambda>y. y \<noteq> x) xs)"

section \<open>The parsed document\<close>

text \<open>
  The parser and its tree are a library; the report reads the tree through four queries
  only, so the document is the record of their results. An element carries its tag name,
  its attributes and its \<^verbatim>\<open>.string\<close> (absent unless the element has one string child).
  A text node carries its parent, absent for a node outside any tree, and its text, which
  is also what \<^verbatim>\<open>str(element)\<close> gives.
\<close>

datatype error = AttributeError | ValueError | OverflowError | ZeroDivisionError

record element =
  name :: string
  attrs :: "(string \<times> string) list"
  tag_string :: "string option"

record text_node =
  parent :: "element option"
  node_text :: string

record soup =
  title :: "element option"
  meta_tags :: "element list"
  page_text :: "text_node list"
  anchors :: "element list"

text \<open>
  \<^verbatim>\<open>title\<close> is \<^verbatim>\<open>soup.title\<close>, the first title element; \<^verbatim>\<open>meta_tags\<close> is
  \<^verbatim>\<open>soup.find_all('meta')\<close>; \<^verbatim>\<open>page_text\<close> is \<^verbatim>\<open>soup.findAll(text=True)\<close>, in
  document order; \<^verbatim>\<open>anchors\<close> is \<^verbatim>\<open>soup.find_all('a')\<close>.
\<close>

record response =
  headers :: "(string \<times> string) list"
  page_data :: soup

definition tag_get :: "element \<Rightarrow> string \<Rightarrow> string option" where
  \<comment> \<open>\<^verbatim>\<open>tag.get(key)\<close>\<close>
  "tag_get tag key = map_of (attrs tag) key"

definition tag_get_default :: "element \<Rightarrow> string \<Rightarrow> string \<Rightarrow> string" where
  \<comment> \<open>\<^verbatim>\<open>tag.get(key, default)\<close>\<close>
  "tag_get_default tag key dflt = (case tag_get tag key of None \<Rightarrow> dflt | Some v \<Rightarrow> v)"

definition headers_get :: "(string \<times> string) list \<Rightarrow> string \<Rightarrow> string option" where
  \<comment> \<open>The header dictionary compares names without regard to case.\<close>
  "headers_get hs key = map_option snd (find (\<lambda>h. lower (fst h) = lower key) hs)"

section \<open>get_meta\<close>

fun get_meta_loop ::
  "element list \<Rightarrow> element list \<times> string list \<Rightarrow> element list \<times> string list" where
  "get_meta_loop [] (all_tags, keywords) = (all_tags, keywords)"
| "get_meta_loop (meta_tag # rest) (all_tags, keywords) =
     (if tag_get meta_tag ''name'' = Some ''keywords''
      then get_meta_loop rest
             (all_tags @ [meta_tag],
              keywords @ split (tag_get_default meta_tag ''content'' []) CHR '','')
      else get_meta_loop rest (all_tags @ [meta_tag], keywords))"

definition get_meta :: "soup \<Rightarrow> element list \<times> string list" where
  "get_meta sp = get_meta_loop (meta_tags sp) ([], [])"

section \<open>is_visible\<close>

text \<open>
  \<^verbatim>\<open>re.match\<close> looks for a match that begins at the start of the text and may end
  anywhere. The pattern of the source needs literal characters and \<^verbatim>\<open>.*\<close> only; the
  dot takes any character but the line feed.
\<close>

datatype re_item = Lit char | DotStar

fun re_match :: "re_item list \<Rightarrow> string \<Rightarrow> bool" where
  "re_match [] s = True"
| "re_match (Lit c # p) [] = False"
| "re_match (Lit c # p) (x # s) = (x = c \<and> re_match p s)"
| "re_match (DotStar # p) [] = re_match p []"
| "re_match (DotStar # p) (x # s) =
     (re_match p (x # s) \<or> (x \<noteq> CHR 0x0A \<and> re_match (DotStar # p) s))"

definition comment_re :: "re_item list" where
  \<comment> \<open>\<^verbatim>\<open><!--.*-->\<close>\<close>
  "comment_re = map Lit ''<!--'' @ [DotStar] @ map Lit ''-->''"

definition ignore :: "string list" where
  "ignore = [''head'', ''title'', ''style'', ''script'', ''[document]'']"

definition is_visible :: "text_node \<Rightarrow> error + bool" where
  \<comment> \<open>Reading \<^verbatim>\<open>.name\<close> of an absent parent raises.\<close>
  "is_visible element =
     (case parent element of
        None \<Rightarrow> Inl AttributeError
      | Some p \<Rightarrow>
          if name p \<in> set ignore then Inr False
          else if re_match comment_re (node_text element) then Inr False
          else Inr True)"

section \<open>filter_content\<close>

definition normalize_word :: "string \<Rightarrow> string" where
  \<comment> \<open>\<^verbatim>\<open>w.strip().replace(',', '').replace('.', '').lower()\<close>\<close>
  "normalize_word w = lower (replace (replace (strip w) CHR '','' []) CHR ''.'' [])"

text \<open>
  The filter is lazy, so the callback runs as the loop asks for the next row; an
  error it raises ends the function with that error.
\<close>

fun filter_content_loop ::
  "(text_node \<Rightarrow> error + bool) \<Rightarrow> text_node list \<Rightarrow> string list \<Rightarrow> error + string list" where
  "filter_content_loop content_filter [] word_list = Inr word_list"
| "filter_content_loop content_filter (row # rest) word_list =
     (case content_filter row of
        Inl e \<Rightarrow> Inl e
      | Inr keep \<Rightarrow>
          if keep \<and> strip (node_text row) \<noteq> []
          then filter_content_loop content_filter rest
                 (word_list @ map normalize_word (split (strip (node_text row)) CHR '' ''))
          else filter_content_loop content_filter rest word_list)"

definition filter_content :: "soup \<Rightarrow> (text_node \<Rightarrow> error + bool) \<Rightarrow> error + string list" where
  "filter_content sp content_filter = filter_content_loop content_filter (page_text sp) []"

section \<open>run_report\<close>

definition isdigit :: "char \<Rightarrow> bool" where
  "isdigit c = (let n = (of_char c :: nat) in 48 \<le> n \<and> n \<le> 57)"

definition digit_val :: "char \<Rightarrow> int" where
  "digit_val c = int (of_char c) - 48"

text \<open>
  \<^verbatim>\<open>int(s)\<close> on text. The white space dropped at both ends is not that of
  \<^verbatim>\<open>str.strip\<close>: the separators FS..US are no white space here. Then come an optional
  sign and decimal digits, where single underscores may stand between digits; anything
  else is a \<^verbatim>\<open>ValueError\<close>, and so is a text of more digits than the interpreter's
  limit for the conversion (4300 unless configured otherwise).
\<close>

definition int_isspace :: "char \<Rightarrow> bool" where
  "int_isspace c =
     (let n = (of_char c :: nat)
      in (9 \<le> n \<and> n \<le> 13) \<or> n = 32 \<or> n = 133 \<or> n = 160)"

definition int_strip :: "string \<Rightarrow> string" where
  "int_strip s = rev (dropWhile int_isspace (rev (dropWhile int_isspace s)))"

definition max_str_digits :: nat where
  "max_str_digits = 4300"

fun int_digits :: "int \<Rightarrow> bool \<Rightarrow> string \<Rightarrow> error + int" where
  "int_digits acc after_digit [] = (if after_digit then Inr acc else Inl ValueError)"
| "int_digits acc after_digit (c # cs) =
     (if isdigit c then int_digits (10 * acc + digit_val c) True cs
      else if c = CHR ''_'' \<and> after_digit then int_digits acc False cs
      else Inl ValueError)"

definition int_unsigned :: "string \<Rightarrow> error + int" where
  "int_unsigned s =
     (if max_str_digits < length (filter isdigit s) then Inl ValueError
      else int_digits 0 False s)"

definition py_int :: "string \<Rightarrow> error + int" where
  "py_int s =
     (case int_strip s of
        [] \<Rightarrow> Inl ValueError
      | c # cs \<Rightarrow>
          if c = CHR ''-'' then map_sum id uminus (int_unsigned cs)
          else if c = CHR ''+'' then int_unsigned cs
          else int_unsigned (c # cs))"

text \<open>
  \<^verbatim>\<open>a / b\<close> on integers gives a float: the double nearest to the exact quotient, ties
  going to the even mantissa, and an \<^verbatim>\<open>OverflowError\<close> when that is out of range. A
  float is held here as the rational number it stands for. \<^verbatim>\<open>ilog2\<close> is the
  exponent of the highest bit of a positive rational, \<^verbatim>\<open>float_round\<close> keeps 53 bits
  from there, or the bits down to \<open>2\<^sup>-\<^sup>1\<^sup>0\<^sup>7\<^sup>4\<close> for the smallest numbers.
\<close>

definition ilog2 :: "rat \<Rightarrow> int" where
  "ilog2 a = (if 1 \<le> a then bitlen \<lfloor>a\<rfloor> - 1 else - bitlen (\<lceil>1 / a\<rceil> - 1))"

definition round_half_even :: "rat \<Rightarrow> int" where
  "round_half_even m =
     (let f = \<lfloor>m\<rfloor>; r = m - of_int f
      in if 1 / 2 < r \<or> (r = 1 / 2 \<and> odd f) then f + 1 else f)"

definition float_round :: "rat \<Rightarrow> error + rat" where
  "float_round x =
     (if x = 0 then Inr 0
      else
        let a = \<bar>x\<bar>;
            e = max (ilog2 a - 52) (- 1074);
            y = of_int (round_half_even (a / 2 powi e)) * 2 powi e
        in if 2 powi 1024 \<le> y then Inl OverflowError else Inr (sgn x * y))"

definition true_div :: "int \<Rightarrow> int \<Rightarrow> error + rat" where
  "true_div a b =
     (if b = 0 then Inl ZeroDivisionError else float_round (of_int a / of_int b))"

definition page_size :: "response \<Rightarrow> error + rat" where
  \<comment> \<open>\<^verbatim>\<open>int(response.headers.get('Content-Length', 0)) / 1024\<close>\<close>
  "page_size r =
     (case headers_get (headers r) ''Content-Length'' of
        None \<Rightarrow> true_div 0 1024
      | Some s \<Rightarrow> (case py_int s of Inl e \<Rightarrow> Inl e | Inr n \<Rightarrow> true_div n 1024))"

record tally =
  word :: string
  count :: int

definition sorted_reverse :: "('a \<Rightarrow> 'k::linorder) \<Rightarrow> 'a list \<Rightarrow> 'a list" where
  \<comment> \<open>\<^verbatim>\<open>sorted(xs, key=key, reverse=True)\<close>: the stable sort of the reversed list,
      reversed, so equal keys keep their order.\<close>
  "sorted_reverse key xs = rev (sort_key key (rev xs))"

definition word_count_list :: "(string, int) dict \<Rightarrow> tally list" where
  "word_count_list word_dict =
     map (\<lambda>(w, c). \<lparr>word = w, count = c\<rparr>) (dict_items word_dict)"

definition most_common :: "(string, int) dict \<Rightarrow> tally list" where
  \<comment> \<open>\<^verbatim>\<open>sorted(word_count_list, key=lambda k: k['count'], reverse=True)[:5]\<close>\<close>
  "most_common word_dict = take 5 (sorted_reverse count (word_count_list word_dict))"

fun keywords_not_in_content :: "string list \<Rightarrow> string list \<Rightarrow> string list" where
  "keywords_not_in_content [] wordlist = []"
| "keywords_not_in_content (keyword # rest) wordlist =
     (if strip (lower keyword) \<notin> set wordlist
      then strip keyword # keywords_not_in_content rest wordlist
      else keywords_not_in_content rest wordlist)"

text \<open>What the report prints, one value for each \<^verbatim>\<open>print\<close>.\<close>

datatype line =
    PageTitle "string option"
  | PageSize rat
  | PageSizeNotFound
  | MetaTagsFound
  | MetaTag element
  | WordSummary
  | WordsFound nat
  | UniqueWords nat
  | FiveMostCommon
  | CommonWord string int
  | KeywordsNotInContent
  | MissingKeyword string
  | PageHyperlinks
  | Hyperlink "string option" "string option"

text \<open>
  The report is the list of lines printed and the error that ended it, if one did.
  The title and the size are read before the first line is printed.
\<close>

definition run_report :: "response \<Rightarrow> line list \<times> error option" where
  "run_report r =
     (case title (page_data r) of
        None \<Rightarrow> ([], Some AttributeError)
      | Some title_tag \<Rightarrow>
          (case page_size r of
             Inl e \<Rightarrow> ([], Some e)
           | Inr size_kb \<Rightarrow>
               (let (meta, keywords) = get_meta (page_data r);
                    out = [PageTitle (tag_string title_tag),
                           if size_kb \<noteq> 0 then PageSize size_kb else PageSizeNotFound]
                          @ [MetaTagsFound] @ map MetaTag meta
                in case filter_content (page_data r) is_visible of
                     Inl e \<Rightarrow> (out, Some e)
                   | Inr wordlist \<Rightarrow>
                       (let word_dict = word_tally wordlist
                        in (out
                            @ [WordSummary, WordsFound (length wordlist),
                               UniqueWords (dict_len word_dict), FiveMostCommon]
                            @ map (\<lambda>t. CommonWord (word t) (count t)) (most_common word_dict)
                            @ [KeywordsNotInContent]
                            @ map MissingKeyword (keywords_not_in_content keywords wordlist)
                            @ [PageHyperlinks]
                            @ map (\<lambda>link. Hyperlink (tag_string link) (tag_get link ''href''))
                                (anchors (page_data r)),
                            None)))))"

section \<open>Reading the results\<close>

text \<open>The tokens one row adds to the word list.\<close>

definition row_words :: "text_node \<Rightarrow> string list" where
  "row_words row = map normalize_word (split (strip (node_text row)) CHR '' '')"

text \<open>The lines of one kind in a printed report, in the order printed.\<close>

definition words_found :: "line list \<Rightarrow> nat list" where
  "words_found out = concat (map (\<lambda>l. case l of WordsFound n \<Rightarrow> [n] | _ \<Rightarrow> []) out)"

definition unique_words :: "line list \<Rightarrow> nat list" where
  "unique_words out = concat (map (\<lambda>l. case l of UniqueWords n \<Rightarrow> [n] | _ \<Rightarrow> []) out)"

definition missing_keywords :: "line list \<Rightarrow> string list" where
  "missing_keywords out = concat (map (\<lambda>l. case l of MissingKeyword k \<Rightarrow> [k] | _ \<Rightarrow> []) out)"

definition size_lines :: "line list \<Rightarrow> line list" where
  "size_lines out =
     filter (\<lambda>l. case l of PageSize q \<Rightarrow> True | PageSizeNotFound \<Rightarrow> True | _ \<Rightarrow> False) out"

text \<open>
  A small page for the examples: a title, one keywords tag with content
  \<^verbatim>\<open>Cat, Bird\<close> and a paragraph \<^verbatim>\<open>Cat  cat dog.\<close> with two spaces after the first word.
\<close>

definition cats_title :: element where
  "cats_title = \<lparr>name = ''title'', attrs = [], tag_string = Some ''Cats''\<rparr>"

definition cats_paragraph :: element where
  "cats_paragraph = \<lparr>name = ''p'', attrs = [], tag_string = Some ''Cat  cat dog.''\<rparr>"

definition cat_page :: soup where
  "cat_page =
     \<lparr>title = Some cats_title,
      meta_tags = [\<lparr>name = ''meta'',
                    attrs = [(''name'', ''keywords''), (''content'', ''Cat, Bird'')],
                    tag_string = None\<rparr>],
      page_text = [\<lparr>parent = Some cats_title, node_text = ''Cats''\<rparr>,
                   \<lparr>parent = Some cats_paragraph, node_text = ''Cat  cat dog.''\<rparr>],
      anchors = []\<rparr>"

definition cat_response :: response where
  "cat_response = \<lparr>headers = [(''Content-Length'', ''2048'')], page_data = cat_page\<rparr>"

definition untitled_response :: response where
  "untitled_response = cat_response\<lparr>page_data := cat_page\<lparr>title := None\<rparr>\<rparr>"

definition empty_length_response :: response where
  "empty_length_response = cat_response\<lparr>headers := [(''Content-Length'', ''0'')]\<rparr>"

definition huge_length_response :: response where
  "huge_length_response =
     cat_response\<lparr>headers := [(''Content-Length'', ''9223372036854776320'')]\<rparr>"

section \<open>Facts about dictionaries and the tally\<close>

lemma dict_get_setitem:
  "dict_get (dict_setitem d k v) k' = (if k' = k then Some v else dict_get d k')"
  by (induction d) (auto simp: dict_get_def)

lemma keys_setitem:
  "map fst (dict_setitem d k v) = (if k \<in> fst ` set d then map fst d else map fst d @ [k])"
  by (induction d) (force simp: image_iff)+

lemma dict_get_None_iff: "dict_get d k = None \<longleftrightarrow> k \<notin> fst ` set d"
  by (simp add: dict_get_def map_of_eq_None_iff)

lemma sum_setitem_new:
  "k \<notin> fst ` set d \<Longrightarrow> sum_list (map snd (dict_setitem d k v)) = sum_list (map snd d) + (v::int)"
  by (induction d) auto

lemma sum_setitem_old:
  "distinct (map fst d) \<Longrightarrow> dict_get d k = Some n \<Longrightarrow>
   sum_list (map snd (dict_setitem d k v)) = sum_list (map snd d) - n + (v::int)"
  by (induction d) (auto simp: dict_get_def image_iff)

lemma tally_inv_empty: "tally_inv []"
  by (simp add: tally_inv_def)

lemma set_setitem_subset: "set (dict_setitem d k v) \<subseteq> insert (k, v) (set d)"
  by (induction d) (auto split: if_splits)

lemma tally_inv_setitem:
  assumes "tally_inv d" and "1 \<le> v"
  shows "tally_inv (dict_setitem d k v)"
proof -
  have "distinct (map fst (dict_setitem d k v))"
    using assms(1) by (auto simp: keys_setitem tally_inv_def)
  moreover have "\<forall>p \<in> set (dict_setitem d k v). 1 \<le> snd p"
    using assms set_setitem_subset [of d k v] by (auto simp: tally_inv_def)
  ultimately show ?thesis by (simp add: tally_inv_def)
qed

lemma tally_inv_positive: "tally_inv d \<Longrightarrow> dict_get d k = Some n \<Longrightarrow> 1 \<le> n"
  by (auto simp: tally_inv_def dict_get_def dest: map_of_SomeD)

lemma tally_loop_inv: "tally_inv d \<Longrightarrow> tally_inv (word_tally_loop ws d)"
proof (induction ws arbitrary: d)
  case Nil
  then show ?case by simp
next
  case (Cons w ws)
  show ?case
  proof (cases "dict_get d w")
    case None
    then show ?thesis using Cons by (simp add: tally_inv_setitem)
  next
    case (Some n)
    then have "1 \<le> n" using Cons.prems by (rule tally_inv_positive [rotated])
    then show ?thesis using Some Cons by (simp add: tally_inv_setitem)
  qed
qed

lemma tally_loop_get:
  "tally_inv d \<Longrightarrow>
   dict_get (word_tally_loop ws d) k =
     (case dict_get d k of
        None \<Rightarrow> if k \<in> set ws then Some (int (count_list ws k)) else None
      | Some n \<Rightarrow> Some (n + int (count_list ws k)))"
proof (induction ws arbitrary: d)
  case Nil
  then show ?case by (simp split: option.splits)
next
  case (Cons w ws)
  show ?case
  proof (cases "dict_get d w")
    case None
    have inv: "tally_inv (dict_setitem d w 1)"
      using Cons.prems by (simp add: tally_inv_setitem)
    show ?thesis
      using None Cons.IH [OF inv]
      by (auto simp: dict_get_setitem split: option.splits)
  next
    case (Some n)
    then have pos: "1 \<le> n" using Cons.prems by (rule tally_inv_positive [rotated])
    then have inv: "tally_inv (dict_setitem d w (n + 1))"
      using Cons.prems by (simp add: tally_inv_setitem)
    show ?thesis
      using Some pos Cons.IH [OF inv]
      by (auto simp: dict_get_setitem split: option.splits)
  qed
qed

lemma tally_loop_sum:
  "tally_inv d \<Longrightarrow>
   sum_list (map snd (word_tally_loop ws d)) = sum_list (map snd d) + int (length ws)"
proof (induction ws arbitrary: d)
  case Nil
  then show ?case by simp
next
  case (Cons w ws)
  show ?case
  proof (cases "dict_get d w")
    case None
    have inv: "tally_inv (dict_setitem d w 1)"
      using Cons.prems by (simp add: tally_inv_setitem)
    have "w \<notin> fst ` set d" using None by (simp add: dict_get_None_iff)
    then show ?thesis
      using None Cons.IH [OF inv] by (simp add: sum_setitem_new)
  next
    case (Some n)
    then have pos: "1 \<le> n" using Cons.prems by (rule tally_inv_positive [rotated])
    then have inv: "tally_inv (dict_setitem d w (n + 1))"
      using Cons.prems by (simp add: tally_inv_setitem)
    have "distinct (map fst d)" using Cons.prems by (simp add: tally_inv_def)
    then show ?thesis
      using Some pos Cons.IH [OF inv] by (simp add: sum_setitem_old)
  qed
qed

section \<open>The tally: counts, sum, keys\<close>

lemma tally_loop_append:
  "word_tally_loop (ws @ vs) d = word_tally_loop vs (word_tally_loop ws d)"
  by (induction ws arbitrary: d) (auto split: option.splits)

lemma tally_loop_keys:
  "map fst (word_tally_loop ws d) =
     map fst d @ filter (\<lambda>w. w \<notin> fst ` set d) (first_seen ws)"
proof (induction ws arbitrary: d)
  case Nil
  then show ?case by simp
next
  case (Cons w ws)
  show ?case
  proof (cases "w \<in> fst ` set d")
    case True
    have keep: "\<And>v. map fst (dict_setitem d w v) = map fst d"
      using True by (simp add: keys_setitem)
    have same: "\<And>v. fst ` set (dict_setitem d w v) = fst ` set d"
      using arg_cong [OF keep, of set] by simp
    have drop: "filter (\<lambda>x. x \<notin> fst ` set d) (removeAll w (first_seen ws)) =
                filter (\<lambda>x. x \<notin> fst ` set d) (first_seen ws)"
      using True by (auto simp: removeAll_filter_not_eq intro: filter_cong)
    show ?thesis
      using True by (auto simp: Cons.IH same keep drop split: option.splits)
  next
    case False
    then have none: "dict_get d w = None" by (simp add: dict_get_None_iff)
    have keys: "map fst (dict_setitem d w 1) = map fst d @ [w]"
      using False by (simp add: keys_setitem)
    have dom: "fst ` set (dict_setitem d w 1) = insert w (fst ` set d)"
      using arg_cong [OF keys, of set] by simp
    have "filter (\<lambda>x. x \<noteq> w \<and> x \<notin> fst ` set d) (first_seen ws) =
          filter (\<lambda>x. x \<notin> fst ` set d) (removeAll w (first_seen ws))"
      by (auto simp: removeAll_filter_not_eq intro: filter_cong)
    then show ?thesis
      using False none by (simp add: Cons.IH keys dom)
  qed
qed

lemma word_tally_keys: "map fst (word_tally ws) = first_seen ws"
  by (simp add: word_tally_def tally_loop_keys)

lemma set_first_seen: "set (first_seen xs) = set xs"
  by (induction xs) auto

lemma distinct_first_seen: "distinct (first_seen xs)"
  by (induction xs) (auto simp: distinct_removeAll)

lemma length_first_seen: "length (first_seen xs) = card (set xs)"
  using distinct_card [OF distinct_first_seen, of xs] by (simp add: set_first_seen)

lemma first_pos_Cons:
  "first_pos (x # xs) y = (if y = x then 0 else Suc (first_pos xs y))"
  by (auto simp: first_pos_def)

lemma first_seen_order:
  "sorted_wrt (\<lambda>a b. first_pos xs a < first_pos xs b) (first_seen xs)"
proof (induction xs)
  case Nil
  then show ?case by simp
next
  case (Cons x xs)
  have "sorted_wrt (\<lambda>a b. first_pos xs a < first_pos xs b) (removeAll x (first_seen xs))"
    using Cons.IH by (simp add: removeAll_filter_not_eq sorted_wrt_filter)
  then have "sorted_wrt (\<lambda>a b. first_pos (x # xs) a < first_pos (x # xs) b)
               (removeAll x (first_seen xs))"
    by (rule sorted_wrt_mono_rel [rotated]) (auto simp: first_pos_Cons)
  then show ?case by (auto simp: first_pos_Cons)
qed

lemma word_tally_get:
  "dict_get (word_tally ws) w = (if w \<in> set ws then Some (int (count_list ws w)) else None)"
proof -
  have "dict_get ([] :: ('a, int) dict) w = None" by (simp add: dict_get_def)
  then show ?thesis
    using tally_loop_get [OF tally_inv_empty, of ws w] by (simp add: word_tally_def)
qed

lemma count_list_pos: "w \<in> set ws \<Longrightarrow> 1 \<le> int (count_list ws w)"
  using count_list_0_iff [of ws w] by (cases "count_list ws w") auto

lemma word_tally_sum: "sum_list (map snd (word_tally ws)) = int (length ws)"
  by (simp add: word_tally_def tally_loop_sum tally_inv_empty)

lemma word_tally_len: "dict_len (word_tally ws) = card (set ws)"
proof -
  have "length (word_tally ws) = length (map fst (word_tally ws))" by simp
  then show ?thesis
    by (simp only: dict_len_def word_tally_keys length_first_seen)
qed

lemma tally_continue_mono:
  assumes "dict_get (word_tally ws) w = Some c"
  shows "\<exists>c'. dict_get (word_tally_loop vs (word_tally ws)) w = Some c' \<and> c \<le> c'"
proof -
  have "tally_inv (word_tally ws)"
    by (simp add: word_tally_def tally_loop_inv tally_inv_empty)
  then show ?thesis using assms by (simp add: tally_loop_get)
qed

text \<open>
  Claim C1. For every word list, the tally maps each word of the list to its number of
  occurrences, which is at least 1; carrying the loop on over more words never lowers a
  count; the counts add up to the length of the list; and the keys are the distinct words
  of the list, each once, so the number of keys is the number of unique words.
\<close>

theorem word_tally_counts:
  "(\<forall>w \<in> set ws. \<exists>c. dict_get (word_tally ws) w = Some c \<and> 1 \<le> c \<and> c = int (count_list ws w))
   \<and> (\<forall>w c. dict_get (word_tally ws) w = Some c \<longrightarrow>
         (\<exists>c'. dict_get (word_tally_loop vs (word_tally ws)) w = Some c' \<and> c \<le> c'))
   \<and> word_tally (ws @ vs) = word_tally_loop vs (word_tally ws)
   \<and> sum_list (map snd (word_tally ws)) = int (length ws)
   \<and> distinct (map fst (word_tally ws))
   \<and> set (map fst (word_tally ws)) = set ws
   \<and> dict_len (word_tally ws) = card (set ws)"
proof (intro conjI)
  show "\<forall>w \<in> set ws. \<exists>c. dict_get (word_tally ws) w = Some c \<and> 1 \<le> c \<and> c = int (count_list ws w)"
    using count_list_pos [of _ ws] by (simp add: word_tally_get)
  show "\<forall>w c. dict_get (word_tally ws) w = Some c \<longrightarrow>
         (\<exists>c'. dict_get (word_tally_loop vs (word_tally ws)) w = Some c' \<and> c \<le> c')"
    by (intro allI impI) (rule tally_continue_mono)
  show "word_tally (ws @ vs) = word_tally_loop vs (word_tally ws)"
    by (simp add: word_tally_def tally_loop_append)
  show "sum_list (map snd (word_tally ws)) = int (length ws)"
    by (rule word_tally_sum)
  show "distinct (map fst (word_tally ws))"
    by (simp add: word_tally_keys distinct_first_seen)
  show "set (map fst (word_tally ws)) = set ws"
    by (simp only: word_tally_keys set_first_seen)
  show "dict_len (word_tally ws) = card (set ws)"
    by (rule word_tally_len)
qed

theorem word_tally_counts_witness:
  "dict_get (word_tally [''cat'', ''cat'', ''dog'']) ''cat'' = Some 2
   \<and> dict_get (word_tally_loop [''cat''] (word_tally [''cat'', ''cat'', ''dog''])) ''cat'' = Some 3
   \<and> sum_list (map snd (word_tally [''cat'', ''cat'', ''dog''])) = 3
   \<and> dict_len (word_tally [''cat'', ''cat'', ''dog'']) = 2"
  using word_tally_counts [of "[''cat'', ''cat'', ''dog'']" "[''cat'']"]
  by (simp add: word_tally_def dict_get_def dict_len_def)

section \<open>The ranking\<close>

lemma sorted_reverse_stable:
  "filter (\<lambda>y. f y = k) (sorted_reverse f xs) = filter (\<lambda>y. f y = k) xs"
proof -
  have "filter (\<lambda>y. f y = k) (sorted_reverse f xs) =
        rev (filter (\<lambda>y. f y = k) (sort_key f (rev xs)))"
    by (simp add: sorted_reverse_def rev_filter)
  also have "\<dots> = rev (filter (\<lambda>y. f y = k) (rev xs))"
    by (simp only: sort_key_stable)
  also have "\<dots> = filter (\<lambda>y. f y = k) xs"
    by (simp add: rev_filter)
  finally show ?thesis .
qed

lemma sorted_reverse_descending:
  "sorted_wrt (\<lambda>a b. f b \<le> f a) (sorted_reverse f xs)"
proof -
  have "sorted (map f (sort_key f (rev xs)))" by simp
  then have "sorted_wrt (\<lambda>a b. f a \<le> f b) (sort_key f (rev xs))"
    by (simp only: sorted_map)
  then show ?thesis
    by (simp add: sorted_reverse_def sorted_wrt_rev)
qed

lemma length_sorted_reverse: "length (sorted_reverse f xs) = length xs"
  by (simp add: sorted_reverse_def)

lemma sorted_wrt_unfilter:
  "sorted_wrt R (filter P ys) \<Longrightarrow> sorted_wrt (\<lambda>a b. P a \<and> P b \<longrightarrow> R a b) ys"
  by (induction ys) (auto split: if_splits)

lemma sorted_reverse_ties:
  assumes "sorted_wrt R xs"
  shows "sorted_wrt (\<lambda>a b. f a = f b \<longrightarrow> R a b) (sorted_reverse f xs)"
proof -
  let ?ys = "sorted_reverse f xs"
  have each: "sorted_wrt (\<lambda>a b. f a = k \<and> f b = k \<longrightarrow> R a b) ?ys" for k
  proof -
    have "sorted_wrt R (filter (\<lambda>y. f y = k) xs)"
      using assms by (rule sorted_wrt_filter)
    then have "sorted_wrt R (filter (\<lambda>y. f y = k) ?ys)"
      by (simp only: sorted_reverse_stable)
    then show ?thesis by (rule sorted_wrt_unfilter)
  qed
  show ?thesis
    unfolding sorted_wrt_iff_nth_less
  proof (intro allI impI)
    fix i j
    assume "i < j" and "j < length ?ys" and eq: "f (?ys ! i) = f (?ys ! j)"
    then show "R (?ys ! i) (?ys ! j)"
      using each [of "f (?ys ! j)"] by (simp add: sorted_wrt_iff_nth_less)
  qed
qed

lemma words_of_count_list: "map word (word_count_list d) = map fst d"
  by (simp add: word_count_list_def dict_items_def case_prod_beta)

lemma counts_of_count_list: "map count (word_count_list d) = map snd d"
  by (simp add: word_count_list_def dict_items_def case_prod_beta)

lemma length_word_count_list: "length (word_count_list d) = dict_len d"
  by (simp add: word_count_list_def dict_items_def dict_len_def)

lemma count_list_first_order:
  "sorted_wrt (\<lambda>a b. first_pos ws (word a) < first_pos ws (word b))
     (word_count_list (word_tally ws))"
proof -
  have "sorted_wrt (\<lambda>a b. first_pos ws a < first_pos ws b)
          (map word (word_count_list (word_tally ws)))"
    by (simp only: words_of_count_list word_tally_keys first_seen_order)
  then show ?thesis by (simp only: sorted_wrt_map)
qed

text \<open>
  Claim C5. For every token sequence, the five most common words listed are
  min(5, number of unique words) many, the number of unique words being the number of
  keys of the tally and the number of distinct tokens, and they stand in order of
  non-increasing count.
\<close>

theorem most_common_length_sorted:
  "length (most_common (word_tally ws)) = min 5 (dict_len (word_tally ws))
   \<and> dict_len (word_tally ws) = card (set ws)
   \<and> sorted_wrt (\<lambda>a b. count b \<le> count a) (most_common (word_tally ws))"
proof (intro conjI)
  show "length (most_common (word_tally ws)) = min 5 (dict_len (word_tally ws))"
    by (simp add: most_common_def length_sorted_reverse length_word_count_list)
  show "dict_len (word_tally ws) = card (set ws)"
    by (rule word_tally_len)
  show "sorted_wrt (\<lambda>a b. count b \<le> count a) (most_common (word_tally ws))"
    unfolding most_common_def by (rule sorted_wrt_take) (rule sorted_reverse_descending)
qed

theorem most_common_length_sorted_witness:
  "length (most_common (word_tally [''cat'', ''cat'', ''dog''])) = 2
   \<and> most_common (word_tally [''cat'', ''cat'', ''dog'']) =
       [\<lparr>word = ''cat'', count = 2\<rparr>, \<lparr>word = ''dog'', count = 1\<rparr>]"
  using most_common_length_sorted [of "[''cat'', ''cat'', ''dog'']"]
  by (simp add: most_common_def sorted_reverse_def word_count_list_def dict_items_def
      word_tally_def dict_get_def dict_len_def)

text \<open>
  Claim C10. The tally keeps its keys in the order of their first occurrence in the
  token sequence and the descending sort keeps entries of equal count in the order of the
  tally; so in the whole ranking, and in its first five entries, of two entries with equal
  counts the one whose word occurs first in the token sequence stands first.
\<close>

theorem most_common_ties_first_seen:
  "map fst (dict_items (word_tally ws)) = first_seen ws
   \<and> sorted_wrt (\<lambda>a b. count a = count b \<longrightarrow> first_pos ws (word a) < first_pos ws (word b))
       (sorted_reverse count (word_count_list (word_tally ws)))
   \<and> sorted_wrt (\<lambda>a b. count a = count b \<longrightarrow> first_pos ws (word a) < first_pos ws (word b))
       (most_common (word_tally ws))"
proof (intro conjI)
  show "map fst (dict_items (word_tally ws)) = first_seen ws"
    by (simp add: dict_items_def word_tally_keys)
  show full: "sorted_wrt (\<lambda>a b. count a = count b \<longrightarrow> first_pos ws (word a) < first_pos ws (word b))
       (sorted_reverse count (word_count_list (word_tally ws)))"
    using count_list_first_order by (rule sorted_reverse_ties)
  show "sorted_wrt (\<lambda>a b. count a = count b \<longrightarrow> first_pos ws (word a) < first_pos ws (word b))
       (most_common (word_tally ws))"
    unfolding most_common_def using full by (rule sorted_wrt_take)
qed

theorem most_common_ties_first_seen_witness:
  "most_common (word_tally [''b'', ''a'', ''c'', ''c'', ''a'']) =
     [\<lparr>word = ''a'', count = 2\<rparr>, \<lparr>word = ''c'', count = 2\<rparr>, \<lparr>word = ''b'', count = 1\<rparr>]
   \<and> first_pos [''b'', ''a'', ''c'', ''c'', ''a''] ''a'' < first_pos [''b'', ''a'', ''c'', ''c'', ''a''] ''c''"
  using most_common_ties_first_seen [of "[''b'', ''a'', ''c'', ''c'', ''a'']"]
  by (simp add: most_common_def sorted_reverse_def word_count_list_def dict_items_def
      word_tally_def dict_get_def first_pos_def)

section \<open>Splitting and normalizing\<close>

lemma length_split_from: "length (split_from sep cur s) = count_list s sep + 1"
  by (induction s arbitrary: cur) auto

lemma length_split: "length (split s sep) = count_list s sep + 1"
  by (simp add: split_def length_split_from)

lemma split_from_pieces:
  "sep \<notin> set cur \<Longrightarrow> w \<in> set (split_from sep cur s) \<Longrightarrow> sep \<notin> set w"
proof (induction s arbitrary: cur)
  case Nil
  then show ?case by simp
next
  case (Cons x s)
  show ?case
  proof (cases "x = sep")
    case True
    then have "w = cur \<or> w \<in> set (split_from sep [] s)"
      using Cons.prems(2) by simp
    then show ?thesis
      using Cons.prems(1) Cons.IH [of "[]"] by auto
  next
    case False
    then have "w \<in> set (split_from sep (cur @ [x]) s)"
      using Cons.prems(2) by simp
    moreover have "sep \<notin> set (cur @ [x])"
      using False Cons.prems(1) by simp
    ultimately show ?thesis by (rule Cons.IH [rotated])
  qed
qed

lemma split_from_join:
  "concat (map ((#) sep) (split_from sep cur s)) = sep # cur @ s"
  by (induction s arbitrary: cur) auto

lemma split_pieces: "\<forall>w \<in> set (split s sep). sep \<notin> set w"
  using split_from_pieces [of sep "[]" _ s] by (auto simp: split_def)

lemma split_join: "concat (map ((#) sep) (split s sep)) = sep # s"
  by (simp add: split_def split_from_join)

lemma split_empty: "split [] sep = [[]]"
  by (simp add: split_def)

lemma split_adjacent: "[] \<in> set (split (u @ sep # sep # v) sep)"
proof -
  have "[] \<in> set (split_from sep cur (u @ sep # sep # v))" for cur
    by (induction u arbitrary: cur) auto
  then show ?thesis by (simp add: split_def)
qed

lemma replace_empty_iff: "replace s c [] = [] \<longleftrightarrow> set s \<subseteq> {c}"
  by (induction s) (auto simp: replace_def)

lemma replace_delete: "replace s c [] = filter (\<lambda>x. x \<noteq> c) s"
  by (induction s) (auto simp: replace_def)

lemma normalize_empty_iff:
  "normalize_word w = [] \<longleftrightarrow> set (strip w) \<subseteq> {CHR '','', CHR ''.''}"
  by (auto simp: normalize_word_def lower_def replace_delete filter_empty_conv)

lemma strip_empty: "strip [] = []"
  by (simp add: strip_def)

lemma normalize_Nil: "normalize_word [] = []"
  by (simp add: normalize_empty_iff strip_empty)

section \<open>The visibility test\<close>

lemma re_match_literals:
  "re_match (map Lit lits @ p) s \<longleftrightarrow> (\<exists>rest. s = lits @ rest \<and> re_match p rest)"
proof (induction lits arbitrary: s)
  case Nil
  then show ?case by simp
next
  case (Cons c lits)
  then show ?case by (cases s) auto
qed

lemma re_match_dot_star:
  "re_match (DotStar # p) s \<longleftrightarrow>
     (\<exists>u v. s = u @ v \<and> CHR 0x0A \<notin> set u \<and> re_match p v)"
proof (induction s)
  case Nil
  then show ?case by simp
next
  case (Cons x s)
  show ?case
  proof
    assume "re_match (DotStar # p) (x # s)"
    then consider "re_match p (x # s)" | "x \<noteq> CHR 0x0A" "re_match (DotStar # p) s"
      by auto
    then show "\<exists>u v. x # s = u @ v \<and> CHR 0x0A \<notin> set u \<and> re_match p v"
    proof cases
      case 1
      then have "x # s = [] @ (x # s) \<and> CHR 0x0A \<notin> set [] \<and> re_match p (x # s)" by simp
      then show ?thesis by blast
    next
      case 2
      then obtain u v where "s = u @ v" "CHR 0x0A \<notin> set u" "re_match p v"
        using Cons.IH by blast
      then have "x # s = (x # u) @ v \<and> CHR 0x0A \<notin> set (x # u) \<and> re_match p v"
        using 2(1) by simp
      then show ?thesis by blast
    qed
  next
    assume "\<exists>u v. x # s = u @ v \<and> CHR 0x0A \<notin> set u \<and> re_match p v"
    then obtain u v where uv: "x # s = u @ v" "CHR 0x0A \<notin> set u" "re_match p v"
      by blast
    show "re_match (DotStar # p) (x # s)"
    proof (cases u)
      case Nil
      then have "re_match p (x # s)" using uv by simp
      then show ?thesis by simp
    next
      case (Cons y u')
      then have "s = u' @ v" "CHR 0x0A \<notin> set u'" "x \<noteq> CHR 0x0A"
        using uv by auto
      then have "re_match (DotStar # p) s"
        using uv(3) Cons.IH by blast
      then show ?thesis using \<open>x \<noteq> CHR 0x0A\<close> by simp
    qed
  qed
qed

lemma comment_re_match:
  "re_match comment_re s \<longleftrightarrow>
     (\<exists>u v. s = ''<!--'' @ u @ ''-->'' @ v \<and> CHR 0x0A \<notin> set u)"
proof -
  have "re_match comment_re s \<longleftrightarrow>
        (\<exists>rest. s = ''<!--'' @ rest \<and> re_match (DotStar # map Lit ''-->'' @ []) rest)"
    unfolding comment_re_def using re_match_literals [of "''<!--''" "DotStar # map Lit ''-->'' @ []" s]
    by simp
  also have "\<dots> \<longleftrightarrow>
        (\<exists>rest. s = ''<!--'' @ rest \<and>
           (\<exists>u v. rest = u @ v \<and> CHR 0x0A \<notin> set u \<and> re_match (map Lit ''-->'' @ []) v))"
    by (simp only: re_match_dot_star)
  also have "\<dots> \<longleftrightarrow>
        (\<exists>rest. s = ''<!--'' @ rest \<and>
           (\<exists>u v. rest = u @ v \<and> CHR 0x0A \<notin> set u \<and> (\<exists>w. v = ''-->'' @ w)))"
    by (simp only: re_match_literals re_match.simps simp_thms)
  also have "\<dots> \<longleftrightarrow> (\<exists>u v. s = ''<!--'' @ u @ ''-->'' @ v \<and> CHR 0x0A \<notin> set u)"
    by blast
  finally show ?thesis .
qed

lemma is_visible_total: "parent e \<noteq> None \<Longrightarrow> \<exists>b. is_visible e = Inr b"
  by (auto simp: is_visible_def)

section \<open>Float division\<close>

lemma ilog2_lower:
  assumes "0 < a"
  shows "2 powi (ilog2 a) \<le> a"
proof (cases "1 \<le> a")
  case True
  then have pos: "0 < \<lfloor>a\<rfloor>" by linarith
  then have "1 \<le> bitlen \<lfloor>a\<rfloor>" by (auto simp: bitlen_alt_def)
  then have "(2::rat) powi (bitlen \<lfloor>a\<rfloor> - 1) = 2 ^ nat (bitlen \<lfloor>a\<rfloor> - 1)"
    by (simp add: power_int_nonneg_exp)
  also have "\<dots> = of_int (2 ^ nat (bitlen \<lfloor>a\<rfloor> - 1))" by simp
  also have "\<dots> \<le> of_int \<lfloor>a\<rfloor>"
    using bitlen_bounds [OF pos] by (simp only: of_int_le_iff)
  also have "\<dots> \<le> a" by simp
  finally show ?thesis using True by (simp add: ilog2_def)
next
  case False
  then have "1 < 1 / a" using assms by simp
  then have pos: "0 < \<lceil>1 / a\<rceil> - 1" by linarith
  let ?k = "bitlen (\<lceil>1 / a\<rceil> - 1)"
  have "\<lceil>1 / a\<rceil> - 1 < 2 ^ nat ?k"
    using bitlen_bounds [OF pos] by simp
  then have "\<lceil>1 / a\<rceil> \<le> 2 ^ nat ?k" by simp
  then have up: "(of_int \<lceil>1 / a\<rceil> :: rat) \<le> of_int (2 ^ nat ?k)"
    by (simp only: of_int_le_iff)
  have "1 / a \<le> of_int \<lceil>1 / a\<rceil>" by (rule le_of_int_ceiling)
  also note up
  also have "(of_int (2 ^ nat ?k) :: rat) = 2 ^ nat ?k" by simp
  finally have "1 / a \<le> 2 ^ nat ?k" .
  then have "1 / 2 ^ nat ?k \<le> a"
    using assms by (simp add: field_simps)
  moreover have "(2::rat) powi (- ?k) = 1 / 2 ^ nat ?k"
    using bitlen_nonneg [of "\<lceil>1 / a\<rceil> - 1"]
    by (simp add: power_int_minus_divide power_int_nonneg_exp)
  ultimately show ?thesis using False by (simp add: ilog2_def)
qed

lemma ilog2_less:
  assumes "0 < a" and "a < 2 powi k"
  shows "ilog2 a < k"
proof (rule ccontr)
  assume "\<not> ilog2 a < k"
  then have "(2::rat) powi k \<le> 2 powi (ilog2 a)"
    by (intro power_int_increasing) simp_all
  then show False using ilog2_lower [OF assms(1)] assms(2) by simp
qed

lemma round_half_even_int: "round_half_even (of_int z) = z"
  by (simp add: round_half_even_def)

lemma round_half_even_ge: "1 \<le> m \<Longrightarrow> 1 \<le> round_half_even m"
proof -
  assume "1 \<le> m"
  then have "1 \<le> \<lfloor>m\<rfloor>" by linarith
  then show ?thesis by (simp add: round_half_even_def Let_def)
qed

lemma float_round_exact:
  assumes "n \<noteq> 0" and "\<bar>n\<bar> < 2 ^ 53"
  shows "float_round (of_int n / 1024) = Inr (of_int n / 1024)"
proof -
  define x :: rat where "x = of_int n / 1024"
  define a where "a = \<bar>x\<bar>"
  define e where "e = max (ilog2 a - 52) (- 1074)"
  have a: "a = of_int \<bar>n\<bar> / 1024" by (simp add: a_def x_def)
  have x: "x \<noteq> 0" using assms(1) by (simp add: x_def)
  then have pos: "0 < a" by (simp add: a_def)
  have "(of_int \<bar>n\<bar> :: rat) < of_int (2 ^ 53)"
    using assms(2) by (simp only: of_int_less_iff)
  then have a43: "a < 2 ^ 43" unfolding a by simp
  then have "a < 2 powi 43" by simp
  then have "ilog2 a < 43" by (rule ilog2_less [OF pos])
  then have e: "e \<le> - 10" by (simp add: e_def)
  define j where "j = nat (- e - 10)"
  have ej: "e = - 10 - int j" using e by (simp add: j_def)
  have pw: "(2::rat) powi e = 1 / (1024 * 2 ^ j)"
    unfolding ej by (simp add: power_int_diff power_int_minus_divide)
  have m: "a / 2 powi e = of_int (\<bar>n\<bar> * 2 ^ j)"
    unfolding pw a by simp
  have "of_int (round_half_even (a / 2 powi e)) * 2 powi e = of_int (\<bar>n\<bar> * 2 ^ j) * (2::rat) powi e"
    unfolding m round_half_even_int ..
  also have "\<dots> = a" unfolding pw a by simp
  finally have y: "of_int (round_half_even (a / 2 powi e)) * 2 powi e = a" .
  have "a < 2 powi 1024"
    using a43 by (rule less_trans) simp
  then have small: "\<not> 2 powi 1024 \<le> a" by simp
  have "float_round x = Inr (sgn x * a)"
    using x small y by (simp add: float_round_def Let_def a_def [symmetric] e_def [symmetric])
  then show ?thesis by (simp add: a_def sgn_mult_abs x_def)
qed

lemma float_round_nonzero:
  assumes "2 powi (- 1074) \<le> \<bar>x\<bar>" and "float_round x = Inr q"
  shows "q \<noteq> 0"
proof -
  define a where "a = \<bar>x\<bar>"
  define e where "e = max (ilog2 a - 52) (- 1074)"
  define k where "k = round_half_even (a / 2 powi e)"
  have "(0::rat) < 2 powi (- 1074)" by simp
  then have pos: "0 < a" using assms(1) unfolding a_def by (rule less_le_trans)
  then have x: "x \<noteq> 0" by (auto simp: a_def)
  have "(2::rat) powi (ilog2 a - 52) \<le> 2 powi (ilog2 a)"
    by (intro power_int_increasing) simp_all
  then have "(2::rat) powi (ilog2 a - 52) \<le> a"
    using ilog2_lower [OF pos] by (rule order_trans)
  then have le: "2 powi e \<le> a"
    using assms(1) by (simp add: max_def e_def a_def)
  have p: "(0::rat) < 2 powi e" by simp
  then have "1 \<le> a / 2 powi e" using le by (simp add: field_simps)
  then have k: "1 \<le> k" unfolding k_def by (rule round_half_even_ge)
  then have "(0::rat) < of_int k" by simp
  then have y: "(0::rat) < of_int k * 2 powi e"
    using p by (rule mult_pos_pos)
  have "q = sgn x * (of_int k * 2 powi e)"
    using assms(2) x
    by (simp add: float_round_def Let_def a_def [symmetric] e_def [symmetric] k_def [symmetric]
        split: if_splits)
  then show ?thesis using k x by (simp add: sgn_eq_0_iff)
qed

lemma true_div_zero: "true_div 0 1024 = Inr 0"
  by (simp add: true_div_def float_round_def)

lemma true_div_exact:
  "n \<noteq> 0 \<Longrightarrow> \<bar>n\<bar> < 2 ^ 53 \<Longrightarrow> true_div n 1024 = Inr (of_int n / 1024)"
  using float_round_exact [of n] by (simp add: true_div_def)

lemma true_div_nonzero:
  assumes "n \<noteq> 0" and "true_div n 1024 = Inr q"
  shows "q \<noteq> 0"
proof -
  have "(1::rat) \<le> of_int \<bar>n\<bar>" using assms(1) by simp
  then have "(1::rat) / 1024 \<le> \<bar>of_int n / 1024\<bar>" by simp
  moreover have "(2::rat) powi (- 1074) \<le> 2 powi (- 10)"
    by (intro power_int_increasing) simp_all
  moreover have "(2::rat) powi (- 10) = 1 / 1024"
    by (simp add: power_int_minus_divide)
  ultimately have "(2::rat) powi (- 1074) \<le> \<bar>of_int n / 1024\<bar>" by simp
  then show ?thesis
    using assms(2) by (intro float_round_nonzero [of "of_int n / 1024"]) (simp_all add: true_div_def)
qed

lemma cat_page_size: "page_size cat_response = Inr 2"
proof -
  have h: "headers_get (headers cat_response) ''Content-Length'' = Some ''2048''"
    by code_simp
  have i: "py_int ''2048'' = Inr 2048"
    by code_simp
  have "true_div 2048 1024 = Inr (of_int 2048 / 1024)"
    by (rule true_div_exact) simp_all
  then show ?thesis by (simp add: page_size_def h i)
qed


section \<open>The word list\<close>

lemma filter_content_loop_ok:
  assumes "\<forall>row \<in> set rows. \<exists>b. content_filter row = Inr b"
  shows "filter_content_loop content_filter rows acc =
         Inr (acc @ concat (map row_words
                (filter (\<lambda>row. content_filter row = Inr True \<and> strip (node_text row) \<noteq> []) rows)))"
  using assms
proof (induction rows arbitrary: acc)
  case Nil
  then show ?case by simp
next
  case (Cons row rows)
  then obtain b where b: "content_filter row = Inr b" by auto
  have rest: "\<forall>row \<in> set rows. \<exists>b. content_filter row = Inr b"
    using Cons.prems by simp
  show ?case
    using b by (simp add: Cons.IH [OF rest] row_words_def)
qed

lemma filter_content_visible:
  assumes "\<forall>row \<in> set (page_text sp). parent row \<noteq> None"
  shows "filter_content sp is_visible =
         Inr (concat (map row_words
                (filter (\<lambda>row. is_visible row = Inr True \<and> strip (node_text row) \<noteq> [])
                   (page_text sp))))"
proof -
  have "\<forall>row \<in> set (page_text sp). \<exists>b. is_visible row = Inr b"
    using assms by (simp add: is_visible_total)
  then show ?thesis
    by (simp add: filter_content_def filter_content_loop_ok)
qed

lemma length_row_words:
  "length (row_words row) = count_list (strip (node_text row)) CHR '' '' + 1"
  by (simp add: row_words_def length_split)

lemma row_words_double_space:
  "strip (node_text row) = u @ CHR '' '' # CHR '' '' # v \<Longrightarrow> [] \<in> set (row_words row)"
proof -
  assume "strip (node_text row) = u @ CHR '' '' # CHR '' '' # v"
  then have "[] \<in> set (split (strip (node_text row)) CHR '' '')"
    by (simp add: split_adjacent)
  then have "normalize_word [] \<in> set (row_words row)"
    unfolding row_words_def by (simp only: set_map) (rule imageI)
  then show ?thesis by (simp add: normalize_Nil)
qed

lemma run_report_success:
  assumes "title (page_data r) = Some t" and "page_size r = Inr sz"
    and "filter_content (page_data r) is_visible = Inr ws"
  shows "run_report r =
    ([PageTitle (tag_string t), if sz \<noteq> 0 then PageSize sz else PageSizeNotFound, MetaTagsFound]
     @ map MetaTag (fst (get_meta (page_data r)))
     @ [WordSummary, WordsFound (length ws), UniqueWords (dict_len (word_tally ws)),
        FiveMostCommon]
     @ map (\<lambda>t. CommonWord (word t) (count t)) (most_common (word_tally ws))
     @ [KeywordsNotInContent]
     @ map MissingKeyword (keywords_not_in_content (snd (get_meta (page_data r))) ws)
     @ [PageHyperlinks]
     @ map (\<lambda>link. Hyperlink (tag_string link) (tag_get link ''href'')) (anchors (page_data r)),
     None)"
  using assms by (simp add: run_report_def Let_def split: prod.splits)

lemma no_words_found_in:
  "words_found (map MetaTag xs) = []"
  "words_found (map (\<lambda>t. CommonWord (f t) (g t)) ys) = []"
  "words_found (map MissingKeyword zs) = []"
  "words_found (map (\<lambda>l. Hyperlink (h l) (k l)) vs) = []"
  by (simp_all add: words_found_def)

lemma words_found_append: "words_found (xs @ ys) = words_found xs @ words_found ys"
  by (simp add: words_found_def)

lemma words_found_Cons:
  "words_found (l # ls) = (case l of WordsFound n \<Rightarrow> [n] | _ \<Rightarrow> []) @ words_found ls"
  by (simp add: words_found_def)

lemma words_found_Nil: "words_found [] = []"
  by (simp add: words_found_def)

lemma words_found_report:
  assumes "title (page_data r) = Some t" and "page_size r = Inr sz"
    and "filter_content (page_data r) is_visible = Inr ws"
  shows "words_found (fst (run_report r)) = [length ws]"
  by (simp add: run_report_success [OF assms] words_found_append words_found_Cons
      words_found_Nil no_words_found_in)

text \<open>
  Claim C2. When every text node has a parent, the word list is, row by row in document
  order, the trimmed text of each visible row with non-empty trimmed text, split at every
  single space, each piece normalized (trimmed, commas and periods removed, lowercased).
  Every piece gives a token, so a row gives one token more than its trimmed text has
  spaces, and two adjacent spaces give an empty token. The total word count the report
  prints is the length of this list.
\<close>

theorem filter_content_tokens:
  assumes "\<forall>row \<in> set (page_text (page_data r)). parent row \<noteq> None"
  shows "\<exists>ws. filter_content (page_data r) is_visible = Inr ws
     \<and> ws = concat (map row_words
              (filter (\<lambda>row. is_visible row = Inr True \<and> strip (node_text row) \<noteq> [])
                 (page_text (page_data r))))
     \<and> (\<forall>row. row_words row = map normalize_word (split (strip (node_text row)) CHR '' '')
            \<and> length (row_words row) = count_list (strip (node_text row)) CHR '' '' + 1)
     \<and> (\<forall>row u v. strip (node_text row) = u @ CHR '' '' # CHR '' '' # v \<longrightarrow>
            [] \<in> set (row_words row))
     \<and> (\<forall>t sz. title (page_data r) = Some t \<longrightarrow> page_size r = Inr sz \<longrightarrow>
            snd (run_report r) = None \<and> words_found (fst (run_report r)) = [length ws])"
proof -
  let ?ws = "concat (map row_words
              (filter (\<lambda>row. is_visible row = Inr True \<and> strip (node_text row) \<noteq> [])
                 (page_text (page_data r))))"
  have ws: "filter_content (page_data r) is_visible = Inr ?ws"
    using assms by (rule filter_content_visible)
  have rows: "\<forall>row. row_words row = map normalize_word (split (strip (node_text row)) CHR '' '')
            \<and> length (row_words row) = count_list (strip (node_text row)) CHR '' '' + 1"
    by (simp add: length_row_words) (simp add: row_words_def)
  have dbl: "\<forall>row u v. strip (node_text row) = u @ CHR '' '' # CHR '' '' # v \<longrightarrow>
            [] \<in> set (row_words row)"
    using row_words_double_space by blast
  have rep: "\<forall>t sz. title (page_data r) = Some t \<longrightarrow> page_size r = Inr sz \<longrightarrow>
            snd (run_report r) = None \<and> words_found (fst (run_report r)) = [length ?ws]"
  proof (intro allI impI)
    fix t sz
    assume t: "title (page_data r) = Some t" and sz: "page_size r = Inr sz"
    show "snd (run_report r) = None \<and> words_found (fst (run_report r)) = [length ?ws]"
      using words_found_report [OF t sz ws] run_report_success [OF t sz ws] by simp
  qed
  from ws rows dbl rep show ?thesis by blast
qed

theorem filter_content_tokens_witness:
  "filter_content cat_page is_visible = Inr [''cat'', [], ''cat'', ''dog'']
   \<and> words_found (fst (run_report cat_response)) = [4]"
proof -
  have h: "\<forall>row \<in> set (page_text (page_data cat_response)). parent row \<noteq> None"
    by (simp add: cat_response_def cat_page_def)
  have p: "page_data cat_response = cat_page"
    by (simp add: cat_response_def)
  have t: "title (page_data cat_response) = Some cats_title"
    by (simp add: cat_response_def cat_page_def)
  have s: "page_size cat_response = Inr 2"
    by (rule cat_page_size)
  have c: "concat (map row_words
              (filter (\<lambda>row. is_visible row = Inr True \<and> strip (node_text row) \<noteq> [])
                 (page_text cat_page))) = [''cat'', [], ''cat'', ''dog'']"
    by code_simp
  from filter_content_tokens [OF h] t s show ?thesis
    unfolding p c by simp
qed

text \<open>
  Claim C9, as stated, fails: two adjacent spaces in a visible paragraph leave an empty
  token in the word list.
\<close>

theorem empty_token_counterexample:
  "filter_content cat_page is_visible = Inr [''cat'', [], ''cat'', ''dog'']
   \<and> [] \<in> set [''cat'', [], ''cat'', ''dog'']"
proof -
  have "filter_content cat_page is_visible = Inr [''cat'', [], ''cat'', ''dog'']"
    by code_simp
  then show ?thesis by simp
qed

lemma empty_in_row_words:
  "[] \<in> set (row_words row) \<longleftrightarrow>
     (\<exists>w \<in> set (split (strip (node_text row)) CHR '' ''). normalize_word w = [])"
proof -
  have "[] \<in> set (row_words row) \<longleftrightarrow>
        (\<exists>w \<in> set (split (strip (node_text row)) CHR '' ''). [] = normalize_word w)"
    by (simp add: row_words_def image_iff)
  then show ?thesis by (simp only: eq_commute [of "[]"])
qed

text \<open>
  Claim C9, amended. Empty tokens are kept. When every text node has a parent, only the
  rows that are not visible or whose trimmed text is empty add nothing; every other row
  adds one token for each piece between single spaces, so the length of the word list is
  the sum over these rows of the number of spaces plus one, and the word list holds an
  empty token exactly when a piece of such a row is, once trimmed, made of commas and
  periods only (the empty piece between two adjacent spaces is one).
\<close>

theorem empty_tokens_kept:
  assumes "\<forall>row \<in> set (page_text sp). parent row \<noteq> None"
  shows "\<exists>ws. filter_content sp is_visible = Inr ws
     \<and> length ws =
         sum_list (map (\<lambda>row. count_list (strip (node_text row)) CHR '' '' + 1)
           (filter (\<lambda>row. is_visible row = Inr True \<and> strip (node_text row) \<noteq> [])
              (page_text sp)))
     \<and> ([] \<in> set ws \<longleftrightarrow>
          (\<exists>row \<in> set (page_text sp). is_visible row = Inr True \<and> strip (node_text row) \<noteq> []
             \<and> (\<exists>w \<in> set (split (strip (node_text row)) CHR '' '').
                   set (strip w) \<subseteq> {CHR '','', CHR ''.''})))"
proof -
  let ?rows = "filter (\<lambda>row. is_visible row = Inr True \<and> strip (node_text row) \<noteq> [])
                 (page_text sp)"
  let ?ws = "concat (map row_words ?rows)"
  have ws: "filter_content sp is_visible = Inr ?ws"
    using assms by (rule filter_content_visible)
  have len: "length ?ws = sum_list (map (\<lambda>row. count_list (strip (node_text row)) CHR '' '' + 1) ?rows)"
    by (simp add: length_concat comp_def length_row_words)
  have "[] \<in> set ?ws \<longleftrightarrow> (\<exists>row \<in> set ?rows. [] \<in> set (row_words row))"
    by auto
  also have "\<dots> \<longleftrightarrow> (\<exists>row \<in> set ?rows. \<exists>w \<in> set (split (strip (node_text row)) CHR '' '').
                   normalize_word w = [])"
    by (simp only: empty_in_row_words)
  also have "\<dots> \<longleftrightarrow> (\<exists>row \<in> set (page_text sp). is_visible row = Inr True \<and> strip (node_text row) \<noteq> []
             \<and> (\<exists>w \<in> set (split (strip (node_text row)) CHR '' '').
                   set (strip w) \<subseteq> {CHR '','', CHR ''.''}))"
    by (simp only: normalize_empty_iff set_filter mem_Collect_eq Bex_def conj_assoc)
  finally have emp: "[] \<in> set ?ws \<longleftrightarrow> (\<exists>row \<in> set (page_text sp). is_visible row = Inr True \<and> strip (node_text row) \<noteq> []
             \<and> (\<exists>w \<in> set (split (strip (node_text row)) CHR '' '').
                   set (strip w) \<subseteq> {CHR '','', CHR ''.''}))" .
  from ws len emp show ?thesis by blast
qed

theorem empty_tokens_kept_witness:
  "length [''cat'', [], ''cat'', ''dog''] =
     sum_list (map (\<lambda>row. count_list (strip (node_text row)) CHR '' '' + 1)
       (filter (\<lambda>row. is_visible row = Inr True \<and> strip (node_text row) \<noteq> [])
          (page_text cat_page)))
   \<and> (\<exists>row \<in> set (page_text cat_page). is_visible row = Inr True \<and> strip (node_text row) \<noteq> []
         \<and> (\<exists>w \<in> set (split (strip (node_text row)) CHR '' '').
               set (strip w) \<subseteq> {CHR '','', CHR ''.''}))"
proof -
  have h: "\<forall>row \<in> set (page_text cat_page). parent row \<noteq> None"
    by (simp add: cat_page_def)
  have c: "filter_content cat_page is_visible = Inr [''cat'', [], ''cat'', ''dog'']"
    by code_simp
  from empty_tokens_kept [OF h] show ?thesis
    unfolding c by simp
qed

section \<open>Visibility\<close>

lemma ignore_set:
  "set ignore = {''head'', ''title'', ''style'', ''script'', ''[document]''}"
  by (simp add: ignore_def)

text \<open>
  Claim C3, as stated, fails: a text that starts with the comment opener and holds the
  closer before its end is classified not visible, though it does not end with the closer
  and its parent is not in the ignore list.
\<close>

theorem comment_prefix_counterexample:
  "is_visible \<lparr>parent = Some cats_paragraph, node_text = ''<!--x-->y''\<rparr> = Inr False
   \<and> name cats_paragraph \<notin> set ignore
   \<and> take 4 ''<!--x-->y'' = ''<!--''
   \<and> drop (length ''<!--x-->y'' - 3) ''<!--x-->y'' \<noteq> ''-->''"
  by code_simp

text \<open>
  Claim C3, amended. For every text node with a parent, the classifier returns false if
  the parent's tag name is one of head, title, style, script and [document]; otherwise it
  returns false if the text matches the comment pattern at its start, that is, if it
  starts with the comment opener and holds the closer after it, at the end of the text or
  before it, with no line feed between the opener and that closer; in every other case it
  returns true. The result is a value: nothing else changes.
\<close>

theorem is_visible_with_parent:
  assumes "parent e = Some p"
  shows "is_visible e =
           Inr (name p \<notin> {''head'', ''title'', ''style'', ''script'', ''[document]''}
                \<and> \<not> (\<exists>u v. node_text e = ''<!--'' @ u @ ''-->'' @ v \<and> CHR 0x0A \<notin> set u))"
  using assms
  by (simp add: is_visible_def comment_re_match ignore_set del: append.simps)

theorem is_visible_with_parent_witness:
  "is_visible \<lparr>parent = Some cats_paragraph, node_text = ''<!--x-->y''\<rparr> = Inr False
   \<and> is_visible \<lparr>parent = Some cats_paragraph, node_text = ''Cat  cat dog.''\<rparr> = Inr True
   \<and> is_visible \<lparr>parent = Some cats_paragraph,
                  node_text = ''<!--a'' @ [CHR 0x0A] @ ''b-->''\<rparr> = Inr True
   \<and> is_visible \<lparr>parent = Some cats_title, node_text = ''Cats''\<rparr> = Inr False"
proof -
  have c: "re_match comment_re ''<!--x-->y''" by code_simp
  have n: "\<not> re_match comment_re ''Cat  cat dog.''" by code_simp
  have l: "\<not> re_match comment_re (''<!--a'' @ [CHR 0x0A] @ ''b-->'')" by code_simp
  have 1: "is_visible \<lparr>parent = Some cats_paragraph, node_text = ''<!--x-->y''\<rparr> = Inr False"
    using is_visible_with_parent
      [of "\<lparr>parent = Some cats_paragraph, node_text = ''<!--x-->y''\<rparr>" cats_paragraph,
       folded comment_re_match] c
    by (simp del: append.simps)
  have 2: "is_visible \<lparr>parent = Some cats_paragraph, node_text = ''Cat  cat dog.''\<rparr> = Inr True"
    using is_visible_with_parent
      [of "\<lparr>parent = Some cats_paragraph, node_text = ''Cat  cat dog.''\<rparr>" cats_paragraph,
       folded comment_re_match] n
    by (simp add: cats_paragraph_def del: append.simps)
  have 3: "is_visible \<lparr>parent = Some cats_paragraph,
                  node_text = ''<!--a'' @ [CHR 0x0A] @ ''b-->''\<rparr> = Inr True"
    using is_visible_with_parent
      [of "\<lparr>parent = Some cats_paragraph, node_text = ''<!--a'' @ [CHR 0x0A] @ ''b-->''\<rparr>"
          cats_paragraph,
       folded comment_re_match] l
    by (simp add: cats_paragraph_def del: append.simps)
  have 4: "is_visible \<lparr>parent = Some cats_title, node_text = ''Cats''\<rparr> = Inr False"
    using is_visible_with_parent
      [of "\<lparr>parent = Some cats_title, node_text = ''Cats''\<rparr>" cats_title]
    by (simp add: cats_title_def del: append.simps)
  from 1 2 3 4 show ?thesis by simp
qed






section \<open>Keywords\<close>

lemma get_meta_loop_eq:
  "get_meta_loop tags (all_tags, kws) =
     (all_tags @ tags,
      kws @ concat (map (\<lambda>t. split (tag_get_default t ''content'' []) CHR '','')
                   (filter (\<lambda>t. tag_get t ''name'' = Some ''keywords'') tags)))"
  by (induction tags arbitrary: all_tags kws) auto

lemma get_meta_eq:
  "get_meta sp =
     (meta_tags sp,
      concat (map (\<lambda>t. split (tag_get_default t ''content'' []) CHR '','')
        (filter (\<lambda>t. tag_get t ''name'' = Some ''keywords'') (meta_tags sp))))"
  by (simp add: get_meta_def get_meta_loop_eq)

lemma keywords_not_in_content_eq:
  "keywords_not_in_content kws ws = map strip (filter (\<lambda>k. strip (lower k) \<notin> set ws) kws)"
  by (induction kws) auto

lemma no_missing_keywords_in:
  "missing_keywords (map MetaTag xs) = []"
  "missing_keywords (map (\<lambda>t. CommonWord (f t) (g t)) ys) = []"
  "missing_keywords (map (\<lambda>l. Hyperlink (h l) (k l)) vs) = []"
  by (simp_all add: missing_keywords_def)

lemma missing_keywords_map: "missing_keywords (map MissingKeyword zs) = zs"
  by (induction zs) (simp_all add: missing_keywords_def)

lemma missing_keywords_append:
  "missing_keywords (xs @ ys) = missing_keywords xs @ missing_keywords ys"
  by (simp add: missing_keywords_def)

lemma missing_keywords_Cons:
  "missing_keywords (l # ls) =
     (case l of MissingKeyword k \<Rightarrow> [k] | _ \<Rightarrow> []) @ missing_keywords ls"
  by (simp add: missing_keywords_def)

lemma missing_keywords_Nil: "missing_keywords [] = []"
  by (simp add: missing_keywords_def)

lemma missing_keywords_report:
  assumes "title (page_data r) = Some t" and "page_size r = Inr sz"
    and "filter_content (page_data r) is_visible = Inr ws"
  shows "missing_keywords (fst (run_report r)) =
         keywords_not_in_content (snd (get_meta (page_data r))) ws"
  by (simp add: run_report_success [OF assms] missing_keywords_append missing_keywords_Cons
      missing_keywords_Nil no_missing_keywords_in missing_keywords_map)

text \<open>
  Claim C4. The keyword list is, over the meta tags named keywords in document order, the
  content attribute (the empty text when absent) split at every comma: the pieces hold no
  comma and are otherwise untouched, so joined again with commas they give the content,
  and an empty or absent content gives one empty keyword. The report lists as not in
  content, in keyword order and with repetitions, the trimmed form of exactly the keywords
  whose lowercased and then trimmed form is no member of the word list.
\<close>

theorem keywords_reconciled:
  "snd (get_meta sp) =
     concat (map (\<lambda>t. split (tag_get_default t ''content'' []) CHR '','')
       (filter (\<lambda>t. tag_get t ''name'' = Some ''keywords'') (meta_tags sp)))
   \<and> (\<forall>t. tag_get t ''content'' = None \<or> tag_get t ''content'' = Some [] \<longrightarrow>
         split (tag_get_default t ''content'' []) CHR '','' = [[]])
   \<and> (\<forall>s. (\<forall>k \<in> set (split s CHR '',''). CHR '','' \<notin> set k)
         \<and> concat (map ((#) CHR '','') (split s CHR '','')) = CHR '','' # s)
   \<and> (\<forall>ws. keywords_not_in_content (snd (get_meta sp)) ws =
         map strip (filter (\<lambda>k. strip (lower k) \<notin> set ws) (snd (get_meta sp))))
   \<and> (\<forall>r t sz ws. page_data r = sp \<longrightarrow> title sp = Some t \<longrightarrow> page_size r = Inr sz \<longrightarrow>
         filter_content sp is_visible = Inr ws \<longrightarrow>
         missing_keywords (fst (run_report r)) =
           map strip (filter (\<lambda>k. strip (lower k) \<notin> set ws) (snd (get_meta sp))))"
proof (intro conjI)
  show "snd (get_meta sp) =
     concat (map (\<lambda>t. split (tag_get_default t ''content'' []) CHR '','')
       (filter (\<lambda>t. tag_get t ''name'' = Some ''keywords'') (meta_tags sp)))"
    by (simp add: get_meta_eq)
  show "\<forall>t. tag_get t ''content'' = None \<or> tag_get t ''content'' = Some [] \<longrightarrow>
         split (tag_get_default t ''content'' []) CHR '','' = [[]]"
    by (auto simp: tag_get_default_def split_empty)
  show "\<forall>s. (\<forall>k \<in> set (split s CHR '',''). CHR '','' \<notin> set k)
         \<and> concat (map ((#) CHR '','') (split s CHR '','')) = CHR '','' # s"
    by (simp add: split_pieces split_join)
  show "\<forall>ws. keywords_not_in_content (snd (get_meta sp)) ws =
         map strip (filter (\<lambda>k. strip (lower k) \<notin> set ws) (snd (get_meta sp)))"
    by (simp add: keywords_not_in_content_eq)
  show "\<forall>r t sz ws. page_data r = sp \<longrightarrow> title sp = Some t \<longrightarrow> page_size r = Inr sz \<longrightarrow>
         filter_content sp is_visible = Inr ws \<longrightarrow>
         missing_keywords (fst (run_report r)) =
           map strip (filter (\<lambda>k. strip (lower k) \<notin> set ws) (snd (get_meta sp)))"
  proof (intro allI impI)
    fix r t sz ws
    assume "page_data r = sp" "title sp = Some t" "page_size r = Inr sz"
      "filter_content sp is_visible = Inr ws"
    then show "missing_keywords (fst (run_report r)) =
           map strip (filter (\<lambda>k. strip (lower k) \<notin> set ws) (snd (get_meta sp)))"
      using missing_keywords_report [of r t sz ws]
      by (simp add: keywords_not_in_content_eq)
  qed
qed

theorem keywords_reconciled_witness:
  "snd (get_meta cat_page) = [''Cat'', '' Bird'']
   \<and> missing_keywords (fst (run_report cat_response)) = [''Bird'']"
proof -
  have p: "page_data cat_response = cat_page"
    by (simp add: cat_response_def)
  have t: "title cat_page = Some cats_title"
    by (simp add: cat_page_def)
  have s: "page_size cat_response = Inr 2"
    by (rule cat_page_size)
  have w: "filter_content cat_page is_visible = Inr [''cat'', [], ''cat'', ''dog'']"
    by code_simp
  have k: "concat (map (\<lambda>t. split (tag_get_default t ''content'' []) CHR '','')
       (filter (\<lambda>t. tag_get t ''name'' = Some ''keywords'') (meta_tags cat_page)))
       = [''Cat'', '' Bird'']"
    by code_simp
  have m: "map strip (filter (\<lambda>k. strip (lower k) \<notin> set [''cat'', [], ''cat'', ''dog''])
             [''Cat'', '' Bird'']) = [''Bird'']"
    by code_simp
  note inst = keywords_reconciled [of cat_page, unfolded k]
  from inst have 1: "snd (get_meta cat_page) = [''Cat'', '' Bird'']" by (rule conjunct1)
  from inst p t s w have "missing_keywords (fst (run_report cat_response)) =
       map strip (filter (\<lambda>k. strip (lower k) \<notin> set [''cat'', [], ''cat'', ''dog''])
         (snd (get_meta cat_page)))"
    by blast
  then have 2: "missing_keywords (fst (run_report cat_response)) = [''Bird'']"
    by (simp only: 1 m)
  from 1 2 show ?thesis by (rule conjI)
qed

section \<open>Title and size\<close>

text \<open>
  Claim C7: the code fails on a page without a title element. Reading \<^verbatim>\<open>.string\<close> of
  the absent title raises before the first line is printed, so no report is produced;
  the same page with a title gives a full report.
\<close>

theorem untitled_page_raises:
  "title (page_data untitled_response) = None
   \<and> run_report untitled_response = ([], Some AttributeError)
   \<and> snd (run_report cat_response) = None"
proof -
  have 1: "title (page_data untitled_response) = None"
    by (simp add: untitled_response_def)
  then have 2: "run_report untitled_response = ([], Some AttributeError)"
    by (simp add: run_report_def)
  have t: "title (page_data cat_response) = Some cats_title"
    by (simp add: cat_response_def cat_page_def)
  have w: "filter_content (page_data cat_response) is_visible = Inr [''cat'', [], ''cat'', ''dog'']"
    by code_simp
  have 3: "snd (run_report cat_response) = None"
    by (simp add: run_report_success [OF t cat_page_size w])
  from 1 2 3 show ?thesis by simp
qed

lemma size_lines_report:
  assumes "title (page_data r) = Some t" and "page_size r = Inr sz"
  shows "size_lines (fst (run_report r)) = [if sz \<noteq> 0 then PageSize sz else PageSizeNotFound]"
proof (cases "filter_content (page_data r) is_visible")
  case (Inl e)
  then show ?thesis
    using assms
    by (simp add: run_report_def Let_def size_lines_def filter_map comp_def split: prod.splits)
next
  case (Inr ws)
  show ?thesis
    by (simp add: run_report_success [OF assms Inr] size_lines_def filter_map comp_def)
qed

lemma huge_page_size: "page_size huge_length_response = Inr (2 ^ 53)"
proof -
  have h: "headers_get (headers huge_length_response) ''Content-Length''
             = Some ''9223372036854776320''"
    by code_simp
  have i: "py_int ''9223372036854776320'' = Inr 9223372036854776320"
    by code_simp
  have d: "true_div 9223372036854776320 1024 = Inr (2 ^ 53)"
    by code_simp
  show ?thesis by (simp add: page_size_def h i d)
qed

text \<open>
  Claim C8, as stated, fails twice. A response that declares a Content-Length of 0 is
  reported with the size not found, not with the size 0. And the size is a float: for the
  declared length 9223372036854776320 the report holds 9007199254740992, which is not
  that length divided by 1024.
\<close>

theorem zero_length_counterexample:
  "headers_get (headers empty_length_response) ''Content-Length'' = Some ''0''
   \<and> py_int ''0'' = Inr 0
   \<and> size_lines (fst (run_report empty_length_response)) = [PageSizeNotFound]
   \<and> headers_get (headers huge_length_response) ''Content-Length'' = Some ''9223372036854776320''
   \<and> py_int ''9223372036854776320'' = Inr 9223372036854776320
   \<and> size_lines (fst (run_report huge_length_response)) = [PageSize 9007199254740992]
   \<and> (9007199254740992 :: rat) \<noteq> of_int 9223372036854776320 / 1024"
proof -
  have h0: "headers_get (headers empty_length_response) ''Content-Length'' = Some ''0''"
    by code_simp
  have i0: "py_int ''0'' = Inr 0"
    by code_simp
  have "page_size empty_length_response = Inr 0"
    by (simp add: page_size_def h0 i0 true_div_zero)
  moreover have t0: "title (page_data empty_length_response) = Some cats_title"
    by (simp add: empty_length_response_def cat_response_def cat_page_def)
  ultimately have s0: "size_lines (fst (run_report empty_length_response)) = [PageSizeNotFound]"
    using size_lines_report [of empty_length_response cats_title 0] by simp
  have h1: "headers_get (headers huge_length_response) ''Content-Length''
              = Some ''9223372036854776320''"
    by code_simp
  have i1: "py_int ''9223372036854776320'' = Inr 9223372036854776320"
    by code_simp
  have t1: "title (page_data huge_length_response) = Some cats_title"
    by (simp add: huge_length_response_def cat_response_def cat_page_def)
  have s1: "size_lines (fst (run_report huge_length_response)) = [PageSize 9007199254740992]"
    using size_lines_report [OF t1 huge_page_size] by simp
  have ne: "(9007199254740992 :: rat) \<noteq> of_int 9223372036854776320 / 1024"
    by simp
  from h0 i0 s0 h1 i1 s1 ne show ?thesis by simp
qed

text \<open>
  Claim C8, amended. For a page with a title: when the headers declare no Content-Length
  the report states the size as not found, whatever the payload; a declared zero is
  reported as not found, as an absent header is; when the headers declare a Content-Length
  that reads as an integer other than zero, the size reported is the float quotient of
  that number by 1024, where the division returns one, and this is the number divided by
  1024 exactly whenever the number is below \<open>2\<^sup>5\<^sup>3\<close> in magnitude.
\<close>

theorem page_size_reported:
  assumes "title (page_data r) = Some t"
  shows "(headers_get (headers r) ''Content-Length'' = None \<longrightarrow>
            size_lines (fst (run_report r)) = [PageSizeNotFound])
     \<and> (\<forall>s n. headers_get (headers r) ''Content-Length'' = Some s \<longrightarrow> py_int s = Inr n \<longrightarrow>
            (n = 0 \<longrightarrow> size_lines (fst (run_report r)) = [PageSizeNotFound])
            \<and> (n \<noteq> 0 \<longrightarrow> \<bar>n\<bar> < 2 ^ 53 \<longrightarrow>
                  size_lines (fst (run_report r)) = [PageSize (of_int n / 1024)])
            \<and> (\<forall>q. n \<noteq> 0 \<longrightarrow> true_div n 1024 = Inr q \<longrightarrow>
                  size_lines (fst (run_report r)) = [PageSize q]))"
proof (intro conjI allI impI)
  assume "headers_get (headers r) ''Content-Length'' = None"
  then have "page_size r = Inr 0" by (simp add: page_size_def true_div_zero)
  then show "size_lines (fst (run_report r)) = [PageSizeNotFound]"
    using size_lines_report [OF assms, of 0] by simp
next
  fix s n
  assume "headers_get (headers r) ''Content-Length'' = Some s" and "py_int s = Inr n"
    and "n = 0"
  then have "page_size r = Inr 0" by (simp add: page_size_def true_div_zero)
  then show "size_lines (fst (run_report r)) = [PageSizeNotFound]"
    using size_lines_report [OF assms, of 0] by simp
next
  fix s n
  assume h: "headers_get (headers r) ''Content-Length'' = Some s" "py_int s = Inr n"
    and n: "n \<noteq> 0" "\<bar>n\<bar> < 2 ^ 53"
  have "page_size r = Inr (of_int n / 1024)"
    using h true_div_exact [OF n] by (simp add: page_size_def)
  then have "size_lines (fst (run_report r)) =
      [if (of_int n / 1024 :: rat) \<noteq> 0 then PageSize (of_int n / 1024) else PageSizeNotFound]"
    by (rule size_lines_report [OF assms])
  then show "size_lines (fst (run_report r)) = [PageSize (of_int n / 1024)]"
    using n(1) by simp
next
  fix s n q
  assume h: "headers_get (headers r) ''Content-Length'' = Some s" "py_int s = Inr n"
    and n: "n \<noteq> 0" and q: "true_div n 1024 = Inr q"
  have "page_size r = Inr q"
    using h q by (simp add: page_size_def)
  then have "size_lines (fst (run_report r)) =
      [if q \<noteq> 0 then PageSize q else PageSizeNotFound]"
    by (rule size_lines_report [OF assms])
  then show "size_lines (fst (run_report r)) = [PageSize q]"
    using true_div_nonzero [OF n q] by simp
qed

theorem page_size_reported_witness:
  "size_lines (fst (run_report cat_response)) = [PageSize 2]
   \<and> size_lines (fst (run_report (cat_response\<lparr>headers := []\<rparr>))) = [PageSizeNotFound]"
proof -
  have t: "title (page_data cat_response) = Some cats_title"
    by (simp add: cat_response_def cat_page_def)
  have t': "title (page_data (cat_response\<lparr>headers := []\<rparr>)) = Some cats_title"
    by (simp add: cat_response_def cat_page_def)
  have h: "headers_get (headers cat_response) ''Content-Length'' = Some ''2048''"
    by code_simp
  have i: "py_int ''2048'' = Inr 2048"
    by code_simp
  have h': "headers_get (headers (cat_response\<lparr>headers := []\<rparr>)) ''Content-Length'' = None"
    by (simp add: headers_get_def)
  from page_size_reported [OF t] h i
  have 1: "size_lines (fst (run_report cat_response)) = [PageSize 2]" by simp
  from page_size_reported [OF t'] h'
  have 2: "size_lines (fst (run_report (cat_response\<lparr>headers := []\<rparr>))) = [PageSizeNotFound]"
    by simp
  from 1 2 show ?thesis by (rule conjI)
qed

end
